theory Spec2Isabelle
  imports Complex_Main "HOL-Library.Stream"
begin

section \<open>The blob arena of script.js\<close>

text \<open>
  A shallow embedding of \<^verbatim>\<open>src/script.js\<close>: the frozen \<^verbatim>\<open>settings\<close> object, the
  mutable \<^verbatim>\<open>game\<close> object, the keyboard map and the frame function \<^verbatim>\<open>loop\<close>.

  JavaScript numbers are modelled as reals: every arithmetic expression of the source is
  read as exact arithmetic, so rounding, infinities and NaN are outside the model.
  \<^verbatim>\<open>Math.random()\<close> is an explicit source of draws, a stream of reals that every call
  consumes one element of; the browser window (\<^verbatim>\<open>innerWidth\<close>, \<^verbatim>\<open>innerHeight\<close>) and the
  frame timestamp are inputs of each frame. The global objects \<^verbatim>\<open>settings\<close> and
  \<^verbatim>\<open>directions\<close> are passed as parameters, and their values in the source are the
  constants \<open>settings\<close> and \<open>directions\<close> below. Calls into the DOM (flash classes, the
  time box, the placement of the blob) and the rescheduling of the next frame change
  nothing of the \<^verbatim>\<open>game\<close> object and are left out.
\<close>

subsection \<open>Data\<close>

record settings =
  blobSize :: real
  randomShake :: real
  pushPower :: real
  slowDown :: real
  pullPower :: real
  hMax :: real
  hRegen :: real
  hCooldown :: real
  driftPower :: real
  driftChangeMin :: real
  driftChangeMax :: real
  flashTime :: real

definition settings :: settings where
  "settings = \<lparr>blobSize = 40, randomShake = 90, pushPower = 420, slowDown = 0.97,
     pullPower = 8, hMax = 3, hRegen = 0.6, hCooldown = 1,
     driftPower = 160, driftChangeMin = 0.6, driftChangeMax = 1.4, flashTime = 200\<rparr>"

text \<open>An object literal \<^verbatim>\<open>{x, y}\<close>: a direction of the key map, the centre of the arena.\<close>

record vec =
  vx :: real
  vy :: real

record window =
  innerWidth :: real
  innerHeight :: real

text \<open>
  The \<^verbatim>\<open>game\<close> object. \<^verbatim>\<open>keys\<close> is a JavaScript \<^verbatim>\<open>Set\<close> of strings, which iterates in
  insertion order: a list without repetitions, oldest key first.
\<close>

record game =
  playing :: bool
  x :: real
  y :: real
  sx :: real
  sy :: real
  keys :: "string list"
  hLeft :: real
  hCooling :: real
  hOverheat :: bool
  time :: real
  lastFrame :: real
  driftX :: real
  driftY :: real
  driftTimer :: real

text \<open>
  The object literal of line 31, for the window and the value of \<^verbatim>\<open>performance.now()\<close>
  at load time.
\<close>

definition game0 :: "settings \<Rightarrow> window \<Rightarrow> real \<Rightarrow> game" where
  "game0 cfg w t0 = \<lparr>playing = True,
     x = innerWidth w / 2, y = innerHeight w / 2, sx = 0, sy = 0,
     keys = [], hLeft = hMax cfg, hCooling = 0, hOverheat = False,
     time = 0, lastFrame = t0,
     driftX = 0, driftY = 0, driftTimer = 0\<rparr>"

subsection \<open>The keyboard map\<close>

text \<open>
  \<^verbatim>\<open>makeKeyMap\<close>: \<^verbatim>\<open>forEach\<close> with its index is a fold over the enumerated list and
  \<^verbatim>\<open>map.set\<close> is a map update, so a character that occurs twice keeps its last vector.
  \<^verbatim>\<open>Math.max\<close> of no argument is minus infinity in the source and 0 here; with no row
  there is no character and the value is not used.
\<close>

definition keyVec :: "nat \<Rightarrow> nat \<Rightarrow> nat \<Rightarrow> nat \<Rightarrow> vec" where
  "keyVec widest n r c =
     \<lparr>vx = (real c / (real widest - 1)) * 2 - 1,
      vy = (real r / (real n - 1)) * 2 - 1\<rparr>"

definition setRow :: "nat \<Rightarrow> nat \<Rightarrow> nat \<times> string \<Rightarrow> (string \<rightharpoonup> vec) \<Rightarrow> (string \<rightharpoonup> vec)" where
  "setRow widest n = (\<lambda>(r, row) m.
     fold (\<lambda>(c, key) m'. m'([key] \<mapsto> keyVec widest n r c)) (enumerate 0 row) m)"

definition makeKeyMap :: "string list \<Rightarrow> (string \<rightharpoonup> vec)" where
  "makeKeyMap rows =
     (let widest = fold max (map length rows) 0
      in fold (setRow widest (length rows)) (enumerate 0 rows) Map.empty)"

definition rows :: "string list" where
  "rows = [''qwertyuiop'', ''asdfghjkl'', ''zxcvbnm'']"

definition directions :: "string \<rightharpoonup> vec" where
  "directions = makeKeyMap rows"

text \<open>\<^verbatim>\<open>getKeyDirection\<close>: the loop over \<^verbatim>\<open>game.keys\<close> with its \<^verbatim>\<open>continue\<close> and \<^verbatim>\<open>return\<close>.\<close>

fun getKeyDirection :: "(string \<rightharpoonup> vec) \<Rightarrow> string list \<Rightarrow> vec" where
  "getKeyDirection dirs [] = \<lparr>vx = 0, vy = 0\<rparr>"
| "getKeyDirection dirs (k # ks) =
     (if k = ''h'' then getKeyDirection dirs ks
      else (case dirs k of
              Some d \<Rightarrow> d
            | None \<Rightarrow> getKeyDirection dirs ks))"

subsection \<open>Arena geometry and drift\<close>

definition center :: "window \<Rightarrow> vec" where
  "center w = \<lparr>vx = innerWidth w / 2, vy = innerHeight w / 2\<rparr>"

definition radius :: "window \<Rightarrow> real" where
  "radius w = min (innerWidth w) (innerHeight w) * 0.35"

definition hypot :: "real \<Rightarrow> real \<Rightarrow> real" where
  "hypot a b = sqrt (a\<^sup>2 + b\<^sup>2)"

text \<open>\<^verbatim>\<open>pickNewDrift\<close> makes three calls of \<^verbatim>\<open>Math.random()\<close>, in this order.\<close>

definition pickNewDrift :: "settings \<Rightarrow> game \<times> real stream \<Rightarrow> game \<times> real stream" where
  "pickNewDrift cfg = (\<lambda>(g, rnd).
     let span = driftChangeMax cfg - driftChangeMin cfg
     in (g\<lparr>driftX := (shd rnd * 2 - 1) * driftPower cfg,
           driftY := (shd (stl rnd) * 2 - 1) * driftPower cfg,
           driftTimer := driftChangeMin cfg + shd (stl (stl rnd)) * span\<rparr>,
         stl (stl (stl rnd))))"

subsection \<open>One frame\<close>

text \<open>
  The body of \<^verbatim>\<open>loop\<close> in the order of the source, one definition for each of its
  commented blocks. \<open>dt\<close> is in seconds.
\<close>

definition canUseH :: "game \<Rightarrow> bool" where
  "canUseH g = (\<not> hOverheat g \<and> hLeft g > 0)"

definition usingH :: "game \<Rightarrow> bool" where
  "usingH g = (''h'' \<in> set (keys g) \<and> canUseH g)"

text \<open>Lines 108 to 111: the drift timer, the resampling and the drift push.\<close>

definition drift :: "settings \<Rightarrow> real \<Rightarrow> game \<times> real stream \<Rightarrow> game \<times> real stream" where
  "drift cfg dt = (\<lambda>(g, rnd).
     let g1 = g\<lparr>driftTimer := driftTimer g - dt\<rparr>;
         (g2, rnd2) = (if driftTimer g1 \<le> 0 then pickNewDrift cfg (g1, rnd) else (g1, rnd))
     in (g2\<lparr>sx := sx g2 + driftX g2 * dt, sy := sy g2 + driftY g2 * dt\<rparr>, rnd2))"

text \<open>Lines 114 to 117: the wiggle, two draws, skipped while the pull is in use.\<close>

definition wiggle :: "settings \<Rightarrow> real \<Rightarrow> bool \<Rightarrow> game \<times> real stream \<Rightarrow> game \<times> real stream" where
  "wiggle cfg dt usesH = (\<lambda>(g, rnd).
     if \<not> usesH
     then (g\<lparr>sx := sx g + (shd rnd - 0.5) * randomShake cfg * dt,
             sy := sy g + (shd (stl rnd) - 0.5) * randomShake cfg * dt\<rparr>,
           stl (stl rnd))
     else (g, rnd))"

text \<open>Lines 120 to 122: the keyboard push.\<close>

definition push :: "settings \<Rightarrow> (string \<rightharpoonup> vec) \<Rightarrow> real \<Rightarrow> game \<Rightarrow> game" where
  "push cfg dirs dt g =
     (let d = getKeyDirection dirs (keys g)
      in g\<lparr>sx := sx g + vx d * pushPower cfg * dt,
           sy := sy g + vy d * pushPower cfg * dt\<rparr>)"

text \<open>Lines 125 to 144: the pull to the centre with its battery, overheat and cooldown.\<close>

definition pull :: "settings \<Rightarrow> vec \<Rightarrow> real \<Rightarrow> bool \<Rightarrow> game \<Rightarrow> game" where
  "pull cfg c dt usesH g =
     (if usesH then
        (let g1 = g\<lparr>sx := sx g + (vx c - x g) * pullPower cfg * dt,
                    sy := sy g + (vy c - y g) * pullPower cfg * dt\<rparr>;
             g2 = g1\<lparr>hLeft := max 0 (hLeft g1 - dt)\<rparr>
         in if hLeft g2 = 0
            then g2\<lparr>hOverheat := True, hCooling := hCooldown cfg\<rparr>
            else g2)
      else if hOverheat g then
        (let g1 = g\<lparr>hCooling := max 0 (hCooling g - dt)\<rparr>
         in if hCooling g1 = 0 then g1\<lparr>hOverheat := False\<rparr> else g1)
      else g\<lparr>hLeft := min (hMax cfg) (hLeft g + hRegen cfg * dt)\<rparr>)"

text \<open>Lines 147 to 150: the move, with the speed before friction, then the friction.\<close>

definition move :: "settings \<Rightarrow> real \<Rightarrow> game \<Rightarrow> game" where
  "move cfg dt g =
     (let g1 = g\<lparr>x := x g + sx g * dt, y := y g + sy g * dt\<rparr>
      in g1\<lparr>sx := sx g1 * slowDown cfg, sy := sy g1 * slowDown cfg\<rparr>)"

text \<open>
  The condition of line 153, for a centre and a radius of the arena. In \<^verbatim>\<open>loop\<close> they are
  \<^verbatim>\<open>center()\<close> and \<^verbatim>\<open>radius()\<close> of the current window.
\<close>

definition outOfCircle :: "settings \<Rightarrow> vec \<Rightarrow> real \<Rightarrow> game \<Rightarrow> bool" where
  "outOfCircle cfg c rad g = (hypot (x g - vx c) (y g - vy c) > rad - blobSize cfg / 2)"

text \<open>
  \<^verbatim>\<open>loop(now)\<close>. The timestamp is stored before the test of \<^verbatim>\<open>game.playing\<close>; after the
  game is over the function returns at line 158, before the clock is advanced.
\<close>

definition loop ::
  "settings \<Rightarrow> (string \<rightharpoonup> vec) \<Rightarrow> window \<Rightarrow> real \<Rightarrow> game \<times> real stream \<Rightarrow> game \<times> real stream" where
  "loop cfg dirs w now = (\<lambda>(g, rnd).
     let dt = (now - lastFrame g) / 1000;
         g0 = g\<lparr>lastFrame := now\<rparr>
     in if \<not> playing g0 then (g0, rnd)
        else
          (let c = center w;
               usesH = usingH g0;
               (g1, rnd1) = drift cfg dt (g0, rnd);
               (g2, rnd2) = wiggle cfg dt usesH (g1, rnd1);
               g3 = push cfg dirs dt g2;
               g4 = pull cfg c dt usesH g3;
               g5 = move cfg dt g4
           in if outOfCircle cfg c (radius w) g5
              then (g5\<lparr>playing := False\<rparr>, rnd2)
              else (g5\<lparr>time := time g5 + dt\<rparr>, rnd2)))"

subsection \<open>Setup, keyboard events and runs\<close>

text \<open>
  The function \<^verbatim>\<open>setup()\<close> of the source (\<open>setupGame\<close> here, the name being taken in
  Isabelle) ends with a first \<^verbatim>\<open>pickNewDrift()\<close> on the object literal. The two listeners
  add the lower-cased key unless the event is a repeat, and delete it. Lower-casing is
  modelled on the ASCII letters.
\<close>

definition setupGame :: "settings \<Rightarrow> window \<Rightarrow> real \<Rightarrow> real stream \<Rightarrow> game \<times> real stream" where
  "setupGame cfg w t0 rnd = pickNewDrift cfg (game0 cfg w t0, rnd)"

definition lowerChar :: "char \<Rightarrow> char" where
  "lowerChar ch =
     (let n = (of_char ch :: nat)
      in if 65 \<le> n \<and> n \<le> 90 then char_of (n + 32) else ch)"

definition toLowerCase :: "string \<Rightarrow> string" where
  "toLowerCase s = map lowerChar s"

definition setAdd :: "string \<Rightarrow> string list \<Rightarrow> string list" where
  "setAdd k ks = (if k \<in> set ks then ks else ks @ [k])"

definition setDelete :: "string \<Rightarrow> string list \<Rightarrow> string list" where
  "setDelete k ks = removeAll k ks"

definition keydown :: "string \<Rightarrow> bool \<Rightarrow> game \<Rightarrow> game" where
  "keydown key repeat g =
     (if \<not> repeat then g\<lparr>keys := setAdd (toLowerCase key) (keys g)\<rparr> else g)"

definition keyup :: "string \<Rightarrow> game \<Rightarrow> game" where
  "keyup key g = g\<lparr>keys := setDelete (toLowerCase key) (keys g)\<rparr>"

text \<open>
  What happens to a session: a frame, with the window at that moment and its timestamp
  in milliseconds, or a keyboard event.
\<close>

datatype event = Frame window real | KeyDown string bool | KeyUp string

fun handle :: "settings \<Rightarrow> (string \<rightharpoonup> vec) \<Rightarrow> event \<Rightarrow> game \<times> real stream \<Rightarrow> game \<times> real stream" where
  "handle cfg dirs (Frame w now) s = loop cfg dirs w now s"
| "handle cfg dirs (KeyDown key repeat) s = (keydown key repeat (fst s), snd s)"
| "handle cfg dirs (KeyUp key) s = (keyup key (fst s), snd s)"

definition run :: "settings \<Rightarrow> (string \<rightharpoonup> vec) \<Rightarrow> event list \<Rightarrow> game \<times> real stream \<Rightarrow> game \<times> real stream" where
  "run cfg dirs evs s = fold (handle cfg dirs) evs s"

text \<open>
  A run in which every frame has a positive time step: each timestamp is later than the
  one stored before it (\<^verbatim>\<open>game.lastFrame\<close>, which every call of \<^verbatim>\<open>loop\<close> overwrites).
\<close>

fun positiveSteps :: "real \<Rightarrow> event list \<Rightarrow> bool" where
  "positiveSteps t [] = True"
| "positiveSteps t (Frame w now # es) = (t < now \<and> positiveSteps now es)"
| "positiveSteps t (KeyDown key repeat # es) = positiveSteps t es"
| "positiveSteps t (KeyUp key # es) = positiveSteps t es"

text \<open>The state after the first \<open>n\<close> events of a run.\<close>

definition stateAt ::
  "settings \<Rightarrow> (string \<rightharpoonup> vec) \<Rightarrow> event list \<Rightarrow> game \<times> real stream \<Rightarrow> nat \<Rightarrow> game \<times> real stream" where
  "stateAt cfg dirs evs s0 n = run cfg dirs (take n evs) s0"

subsection \<open>Notions used in the statements and proofs\<close>

text \<open>
  The three fields of the pull ability, and what one frame of a game that is playing
  does to them: \<open>pullH\<close> is lines 125 to 144 read on the triple alone (\<open>loop_abil\<close> below
  proves that this is what \<open>loop\<close> does).
\<close>

definition abil :: "game \<Rightarrow> real \<times> real \<times> bool" where
  "abil g = (hLeft g, hCooling g, hOverheat g)"

definition pullH :: "settings \<Rightarrow> real \<Rightarrow> bool \<Rightarrow> real \<times> real \<times> bool \<Rightarrow> real \<times> real \<times> bool" where
  "pullH cfg dt u = (\<lambda>(l, c, ov).
     if u then (if max 0 (l - dt) = 0 then (max 0 (l - dt), hCooldown cfg, True)
                else (max 0 (l - dt), c, ov))
     else if ov then (l, max 0 (c - dt), max 0 (c - dt) \<noteq> 0)
     else (min (hMax cfg) (l + hRegen cfg * dt), c, ov))"

definition chargeInv :: "settings \<Rightarrow> game \<Rightarrow> bool" where
  "chargeInv cfg g = (0 \<le> hLeft g \<and> hLeft g \<le> hMax cfg \<and> 0 \<le> hCooling g)"

definition zeroInv :: "game \<Rightarrow> bool" where
  "zeroInv g = (hOverheat g \<longrightarrow> hLeft g = 0)"

definition coolingInv :: "game \<Rightarrow> bool" where
  "coolingInv g = (hOverheat g \<longleftrightarrow> hCooling g \<noteq> 0)"

text \<open>
  Event \<open>k\<close> of a run is a frame in which the pull was in use (the game playing, the key
  held, no overheat, charge left) and after which the charge is exactly 0.
\<close>

definition depletedAt ::
  "settings \<Rightarrow> (string \<rightharpoonup> vec) \<Rightarrow> event list \<Rightarrow> game \<times> real stream \<Rightarrow> nat \<Rightarrow> bool" where
  "depletedAt cfg dirs evs s0 k =
     (k < length evs \<and>
      (case evs ! k of
         Frame w now \<Rightarrow>
           playing (fst (stateAt cfg dirs evs s0 k)) \<and>
           usingH (fst (stateAt cfg dirs evs s0 k)) \<and>
           hLeft (fst (stateAt cfg dirs evs s0 (Suc k))) = 0
       | KeyDown key repeat \<Rightarrow> False
       | KeyUp key \<Rightarrow> False))"

text \<open>A blob at rest in the centre of the window, with no drift and no key held.\<close>

definition restInv :: "window \<Rightarrow> game \<Rightarrow> bool" where
  "restInv w g = (playing g \<and> x g = innerWidth w / 2 \<and> y g = innerHeight w / 2 \<and>
     sx g = 0 \<and> sy g = 0 \<and> driftX g = 0 \<and> driftY g = 0 \<and> keys g = [])"

text \<open>Every draw is in \<open>[0, 1)\<close>, as the results of \<^verbatim>\<open>Math.random()\<close> are.\<close>

definition unitDraws :: "real stream \<Rightarrow> bool" where
  "unitDraws rnd = (\<forall>u\<in>sset rnd. 0 \<le> u \<and> u < 1)"

text \<open>A window for the examples: its arena has centre (500, 400) and radius 280.\<close>

abbreviation (input) arena1000 :: window where
  "arena1000 \<equiv> \<lparr>innerWidth = 1000, innerHeight = 800\<rparr>"

text \<open>A small one: centre (50, 50), radius 35.\<close>

abbreviation (input) arena100 :: window where
  "arena100 \<equiv> \<lparr>innerWidth = 100, innerHeight = 100\<rparr>"

section \<open>Basic facts about one frame\<close>

lemma loop_dead: "\<not> playing g \<Longrightarrow> loop cfg dirs w now (g, r) = (g\<lparr>lastFrame := now\<rparr>, r)"
  by (simp add: loop_def)

lemma abil_drift: "abil (fst (drift cfg dt s)) = abil (fst s)"
  by (simp add: drift_def pickNewDrift_def abil_def Let_def split_def)

lemma abil_wiggle: "abil (fst (wiggle cfg dt u s)) = abil (fst s)"
  by (simp add: wiggle_def abil_def split_def)

lemma abil_push: "abil (push cfg dirs dt g) = abil g"
  by (simp add: push_def abil_def Let_def)

lemma abil_pull: "abil (pull cfg c dt u g) = pullH cfg dt u (abil g)"
  by (auto simp add: pull_def abil_def pullH_def Let_def)

lemma abil_move: "abil (move cfg dt g) = abil g"
  by (simp add: move_def abil_def Let_def)

lemma abil_upd:
  "abil (g\<lparr>playing := b\<rparr>) = abil g" "abil (g\<lparr>time := t\<rparr>) = abil g"
  "abil (g\<lparr>lastFrame := t\<rparr>) = abil g" "abil (g\<lparr>keys := ks\<rparr>) = abil g"
  by (simp_all add: abil_def)

lemma loop_abil:
  "playing g \<Longrightarrow> abil (fst (loop cfg dirs w now (g, r))) =
     pullH cfg ((now - lastFrame g) / 1000) (usingH g) (abil g)"
  by (simp add: loop_def Let_def split_def abil_upd abil_move abil_pull abil_push
      abil_wiggle abil_drift usingH_def canUseH_def)

lemma loop_pullH:
  "playing g \<Longrightarrow> g' = fst (loop cfg dirs w now (g, r)) \<Longrightarrow>
   pullH cfg ((now - lastFrame g) / 1000) (usingH g) (hLeft g, hCooling g, hOverheat g)
     = (hLeft g', hCooling g', hOverheat g')"
  using loop_abil [of g cfg dirs w now r] by (simp add: abil_def)

lemma usingH_not_overheat: "usingH g \<Longrightarrow> \<not> hOverheat g"
  by (simp add: usingH_def canUseH_def)

lemma lastFrame_drift: "lastFrame (fst (drift cfg dt s)) = lastFrame (fst s)"
  by (simp add: drift_def pickNewDrift_def Let_def split_def)

lemma lastFrame_wiggle: "lastFrame (fst (wiggle cfg dt u s)) = lastFrame (fst s)"
  by (simp add: wiggle_def split_def)

lemma lastFrame_push: "lastFrame (push cfg dirs dt g) = lastFrame g"
  by (simp add: push_def Let_def)

lemma lastFrame_pull: "lastFrame (pull cfg c dt u g) = lastFrame g"
  by (simp add: pull_def Let_def)

lemma lastFrame_move: "lastFrame (move cfg dt g) = lastFrame g"
  by (simp add: move_def Let_def)

lemma loop_lastFrame: "lastFrame (fst (loop cfg dirs w now s)) = now"
  by (simp add: loop_def Let_def split_def lastFrame_move lastFrame_pull lastFrame_push
      lastFrame_wiggle lastFrame_drift)

lemma key_fields:
  "hLeft (keydown key rep g) = hLeft g" "hLeft (keyup key g) = hLeft g"
  "hCooling (keydown key rep g) = hCooling g" "hCooling (keyup key g) = hCooling g"
  "hOverheat (keydown key rep g) = hOverheat g" "hOverheat (keyup key g) = hOverheat g"
  "lastFrame (keydown key rep g) = lastFrame g" "lastFrame (keyup key g) = lastFrame g"
  by (simp_all add: keydown_def keyup_def)

lemma setupGame_fields:
  "hLeft (fst (setupGame cfg w t0 rnd)) = hMax cfg"
  "hCooling (fst (setupGame cfg w t0 rnd)) = 0"
  "hOverheat (fst (setupGame cfg w t0 rnd)) = False"
  "lastFrame (fst (setupGame cfg w t0 rnd)) = t0"
  "playing (fst (setupGame cfg w t0 rnd)) = True"
  "keys (fst (setupGame cfg w t0 rnd)) = []"
  by (simp_all add: setupGame_def game0_def pickNewDrift_def Let_def)

lemma run_Cons: "run cfg dirs (e # evs) s = run cfg dirs evs (handle cfg dirs e s)"
  by (simp add: run_def)

lemma stateAt_0: "stateAt cfg dirs evs s0 0 = s0"
  by (simp add: stateAt_def run_def)

lemma stateAt_Suc:
  "n < length evs \<Longrightarrow>
   stateAt cfg dirs evs s0 (Suc n) = handle cfg dirs (evs ! n) (stateAt cfg dirs evs s0 n)"
  by (simp add: stateAt_def run_def take_Suc_conv_app_nth)

text \<open>
  The boundary test without the square root, and the equations that evaluate a run on
  concrete inputs.
\<close>

lemma hypot_gt_iff: "hypot a b > t \<longleftrightarrow> (t < 0 \<or> a\<^sup>2 + b\<^sup>2 > t\<^sup>2)"
proof (cases "t < 0")
  case True
  have "0 \<le> hypot a b" by (simp add: hypot_def)
  with True show ?thesis by simp
next
  case False
  then have "t = sqrt (t\<^sup>2)" by simp
  then have "(t < hypot a b) = (sqrt (t\<^sup>2) < sqrt (a\<^sup>2 + b\<^sup>2))" by (simp add: hypot_def)
  also have "\<dots> = (t\<^sup>2 < a\<^sup>2 + b\<^sup>2)" by (rule real_sqrt_less_iff)
  finally show ?thesis using False by simp
qed

lemmas frame_eval = run_def keydown_def keyup_def setAdd_def setDelete_def
  loop_def drift_def wiggle_def push_def pull_def move_def pickNewDrift_def Let_def
  usingH_def canUseH_def outOfCircle_def hypot_gt_iff center_def radius_def
  power2_eq_square

lemma toLowerCase_h: "toLowerCase ''h'' = ''h''"
  by (simp add: toLowerCase_def lowerChar_def)

lemma run_deplete:
  "run settings directions [KeyDown ''h'' False, Frame arena1000 3000]
     (setupGame settings arena1000 0 (sconst (1/2))) =
   (\<lparr>playing = True, x = 500, y = 400, sx = 0, sy = 0, keys = [''h''],
      hLeft = 0, hCooling = 1, hOverheat = True, time = 3,
      lastFrame = 3000, driftX = 0, driftY = 0, driftTimer = 1\<rparr>, sconst (1/2))"
  by (simp add: setupGame_def game0_def frame_eval toLowerCase_h settings_def)

lemma loop_clear:
  "loop settings directions arena1000 4000
     (\<lparr>playing = True, x = 500, y = 400, sx = 0, sy = 0, keys = [''h''],
        hLeft = 0, hCooling = 1, hOverheat = True, time = 3,
        lastFrame = 3000, driftX = 0, driftY = 0, driftTimer = 1\<rparr>, sconst (1/2)) =
   (\<lparr>playing = True, x = 500, y = 400, sx = 0, sy = 0, keys = [''h''],
      hLeft = 0, hCooling = 0, hOverheat = False, time = 4,
      lastFrame = 4000, driftX = 0, driftY = 0, driftTimer = 1\<rparr>, sconst (1/2))"
  by (simp add: frame_eval settings_def)

lemma run_out:
  "run settings directions [Frame arena100 1000] (setupGame settings arena100 0 (sconst 0)) =
   (\<lparr>playing = False, x = - 155, y = - 155, sx = - (3977 / 20),
       sy = - (3977 / 20), keys = [], hLeft = 3, hCooling = 0,
       hOverheat = False, time = 0, lastFrame = 1000, driftX = - 160,
       driftY = - 160, driftTimer = 3 / 5\<rparr>, sconst 0)"
  by (simp add: setupGame_def game0_def frame_eval settings_def)


lemma sqrt_108_144: "sqrt (108\<^sup>2 + 144\<^sup>2) = 180"
  by (rule real_sqrt_unique) simp_all

lemma run5:
  "run (settings\<lparr>driftPower := 0\<rparr>) directions
     [Frame arena1000 1000, Frame arena1000 2000, Frame arena1000 3000, Frame arena1000 4000,
      Frame arena1000 5000]
     (setupGame (settings\<lparr>driftPower := 0\<rparr>) arena1000 0 (sconst (2/5))) =
   (\<lparr>playing = True, x = 37027995071 / 100000000,
       y = 27027995071 / 100000000, sx = - (411083985213 / 10000000000),
       sy = - (411083985213 / 10000000000), keys = [], hLeft = 3,
       hCooling = 0, hOverheat = False, time = 5, lastFrame = 5000,
       driftX = 0, driftY = 0, driftTimer = 23 / 25\<rparr>, sconst (2/5))"
  by (simp add: setupGame_def game0_def frame_eval settings_def)

section \<open>The charge and the cooldown stay in range\<close>

lemma pullH_chargeInv:
  assumes "0 \<le> hMax cfg" "0 \<le> hRegen cfg" "0 \<le> hCooldown cfg" "0 \<le> dt"
    and "0 \<le> l \<and> l \<le> hMax cfg \<and> 0 \<le> c"
    and "pullH cfg dt u (l, c, ov) = (l', c', ov')"
  shows "0 \<le> l' \<and> l' \<le> hMax cfg \<and> 0 \<le> c'"
  using assms by (auto simp add: pullH_def split: if_splits)

lemma loop_chargeInv:
  assumes cfg: "0 \<le> hMax cfg" "0 \<le> hRegen cfg" "0 \<le> hCooldown cfg"
    and dt: "lastFrame g \<le> now" and inv: "chargeInv cfg g"
  shows "chargeInv cfg (fst (loop cfg dirs w now (g, r)))"
proof (cases "playing g")
  case False
  then show ?thesis using inv by (simp add: loop_dead chargeInv_def)
next
  case True
  let ?g' = "fst (loop cfg dirs w now (g, r))"
  have "pullH cfg ((now - lastFrame g) / 1000) (usingH g) (hLeft g, hCooling g, hOverheat g)
      = (hLeft ?g', hCooling ?g', hOverheat ?g')"
    by (rule loop_pullH [OF True refl])
  moreover have "0 \<le> (now - lastFrame g) / 1000" using dt by simp
  ultimately show ?thesis
    using pullH_chargeInv [OF cfg, of "(now - lastFrame g) / 1000" "hLeft g" "hCooling g"] inv
    unfolding chargeInv_def by blast
qed

lemma run_chargeInv:
  assumes cfg: "0 \<le> hMax cfg" "0 \<le> hRegen cfg" "0 \<le> hCooldown cfg"
  shows "chargeInv cfg (fst s) \<Longrightarrow> positiveSteps (lastFrame (fst s)) evs \<Longrightarrow>
         chargeInv cfg (fst (run cfg dirs evs s))"
proof (induction evs arbitrary: s)
  case Nil
  then show ?case by (simp add: run_def)
next
  case (Cons e evs)
  obtain g r where s: "s = (g, r)" by (cases s)
  have step: "chargeInv cfg (fst (handle cfg dirs e s))
      \<and> positiveSteps (lastFrame (fst (handle cfg dirs e s))) evs"
  proof (cases e)
    case (Frame w now)
    with Cons.prems s show ?thesis
      by (simp add: loop_chargeInv [OF cfg] loop_lastFrame)
  next
    case (KeyDown key rep)
    with Cons.prems s show ?thesis by (simp add: chargeInv_def key_fields)
  next
    case (KeyUp key)
    with Cons.prems s show ?thesis by (simp add: chargeInv_def key_fields)
  qed
  with Cons.IH [of "handle cfg dirs e s"] show ?case by (simp add: run_Cons)
qed

lemma positiveSteps_take: "positiveSteps t evs \<Longrightarrow> positiveSteps t (take n evs)"
proof (induction t evs arbitrary: n rule: positiveSteps.induct)
  case (1 t)
  then show ?case by simp
next
  case (2 t w now es)
  then show ?case by (cases n) simp_all
next
  case (3 t key repeat es)
  then show ?case by (cases n) simp_all
next
  case (4 t key es)
  then show ?case by (cases n) simp_all
qed

text \<open>
  C1. Start from the state that \<^verbatim>\<open>setup()\<close> leaves (charge \<open>hMax\<close>, cooldown 0) and let
  frames and keyboard events follow in any order, every frame with a time step greater
  than 0. After any number \<open>n\<close> of these events the charge \<open>hLeft\<close> is in \<open>[0, hMax]\<close> and
  the cooldown \<open>hCooling\<close> is at least 0. The settings need only have \<open>hMax\<close>, \<open>hRegen\<close> and
  \<open>hCooldown\<close> not negative, as those of the source do.
\<close>

theorem charge_cooldown_in_range:
  assumes "0 \<le> hMax cfg" "0 \<le> hRegen cfg" "0 \<le> hCooldown cfg"
    and "positiveSteps t0 evs"
    and "g = fst (run cfg dirs (take n evs) (setupGame cfg w t0 rnd))"
  shows "0 \<le> hLeft g \<and> hLeft g \<le> hMax cfg \<and> 0 \<le> hCooling g"
proof -
  have "chargeInv cfg (fst (setupGame cfg w t0 rnd))"
    using assms(1) by (simp add: chargeInv_def setupGame_fields)
  moreover have "positiveSteps (lastFrame (fst (setupGame cfg w t0 rnd))) (take n evs)"
    using assms(4) by (simp add: setupGame_fields positiveSteps_take)
  ultimately have "chargeInv cfg g"
    unfolding assms(5) by (rule run_chargeInv [OF assms(1-3)])
  then show ?thesis by (simp add: chargeInv_def)
qed

theorem charge_cooldown_in_range_witness:
  "0 \<le> hMax settings \<and> 0 \<le> hRegen settings \<and> 0 \<le> hCooldown settings \<and>
   positiveSteps 0 [KeyDown ''h'' False, Frame \<lparr>innerWidth = 1000, innerHeight = 800\<rparr> 1000,
     Frame \<lparr>innerWidth = 1000, innerHeight = 800\<rparr> 2500] \<and>
   0 \<le> hLeft (fst (run settings directions
          (take 3 [KeyDown ''h'' False, Frame \<lparr>innerWidth = 1000, innerHeight = 800\<rparr> 1000,
             Frame \<lparr>innerWidth = 1000, innerHeight = 800\<rparr> 2500])
          (setupGame settings \<lparr>innerWidth = 1000, innerHeight = 800\<rparr> 0 (sconst (1/2))))) \<and>
   hLeft (fst (run settings directions
          (take 3 [KeyDown ''h'' False, Frame \<lparr>innerWidth = 1000, innerHeight = 800\<rparr> 1000,
             Frame \<lparr>innerWidth = 1000, innerHeight = 800\<rparr> 2500])
          (setupGame settings \<lparr>innerWidth = 1000, innerHeight = 800\<rparr> 0 (sconst (1/2)))))
     \<le> hMax settings"
proof -
  have cfg: "0 \<le> hMax settings" "0 \<le> hRegen settings" "0 \<le> hCooldown settings"
    by (simp_all add: settings_def)
  have steps: "positiveSteps 0 [KeyDown ''h'' False,
      Frame \<lparr>innerWidth = 1000, innerHeight = 800\<rparr> 1000,
      Frame \<lparr>innerWidth = 1000, innerHeight = 800\<rparr> 2500]"
    by simp
  from charge_cooldown_in_range [OF cfg steps refl, of directions 3
      "\<lparr>innerWidth = 1000, innerHeight = 800\<rparr>" "sconst (1/2)"] cfg steps
  show ?thesis by blast
qed

section \<open>The overheat flag\<close>

lemma pullH_zero:
  assumes "ov \<longrightarrow> l = 0" and "u \<longrightarrow> \<not> ov" and "pullH cfg dt u (l, c, ov) = (l', c', ov')"
  shows "ov' \<longrightarrow> l' = 0"
  using assms by (auto simp add: pullH_def split: if_splits)

lemma pullH_cooling:
  assumes "hCooldown cfg \<noteq> 0" and "ov \<longleftrightarrow> c \<noteq> 0" and "u \<longrightarrow> \<not> ov"
    and "pullH cfg dt u (l, c, ov) = (l', c', ov')"
  shows "(ov' \<longleftrightarrow> c' \<noteq> 0) \<and> (ov' \<longleftrightarrow> (u \<and> l' = 0) \<or> (ov \<and> c' \<noteq> 0))"
  using assms by (auto simp add: pullH_def split: if_splits)

lemma loop_zeroInv: "zeroInv g \<Longrightarrow> zeroInv (fst (loop cfg dirs w now (g, r)))"
proof (cases "playing g")
  case False
  assume "zeroInv g"
  with False show ?thesis by (simp add: loop_dead zeroInv_def)
next
  case True
  assume "zeroInv g"
  then have "hOverheat g \<longrightarrow> hLeft g = 0" by (simp add: zeroInv_def)
  moreover have "usingH g \<longrightarrow> \<not> hOverheat g" by (simp add: usingH_not_overheat)
  moreover note loop_pullH [OF True refl, where cfg = cfg and dirs = dirs and w = w and now = now and r = r]
  ultimately show ?thesis
    unfolding zeroInv_def by (rule pullH_zero)
qed

lemma loop_coolingInv:
  assumes "hCooldown cfg \<noteq> 0" and "coolingInv g" and "g' = fst (loop cfg dirs w now (g, r))"
  shows "coolingInv g' \<and>
         (hOverheat g' \<longleftrightarrow> (playing g \<and> usingH g \<and> hLeft g' = 0) \<or> (hOverheat g \<and> hCooling g' \<noteq> 0))"
proof (cases "playing g")
  case False
  with assms(2,3) show ?thesis by (auto simp add: loop_dead coolingInv_def)
next
  case True
  have "hOverheat g \<longleftrightarrow> hCooling g \<noteq> 0" using assms(2) by (simp add: coolingInv_def)
  moreover have "usingH g \<longrightarrow> \<not> hOverheat g" by (simp add: usingH_not_overheat)
  ultimately show ?thesis
    using pullH_cooling [OF assms(1) _ _ loop_pullH [OF True assms(3)]] True
    unfolding coolingInv_def by blast
qed

lemma handle_zeroInv: "zeroInv (fst s) \<Longrightarrow> zeroInv (fst (handle cfg dirs e s))"
proof (cases e)
  case (Frame w now)
  assume "zeroInv (fst s)"
  with Frame show ?thesis using loop_zeroInv [of "fst s" cfg dirs w now "snd s"] by simp
next
  case (KeyDown key rep)
  assume "zeroInv (fst s)"
  with KeyDown show ?thesis by (simp add: zeroInv_def key_fields)
next
  case (KeyUp key)
  assume "zeroInv (fst s)"
  with KeyUp show ?thesis by (simp add: zeroInv_def key_fields)
qed

lemma run_zeroInv: "zeroInv (fst s) \<Longrightarrow> zeroInv (fst (run cfg dirs evs s))"
proof (induction evs arbitrary: s)
  case Nil
  then show ?case by (simp add: run_def)
next
  case (Cons e evs)
  from Cons.IH [OF handle_zeroInv [OF Cons.prems]] show ?case by (simp add: run_Cons)
qed

lemma overheat_trace:
  assumes cd: "hCooldown cfg \<noteq> 0" and init: "coolingInv (fst s0)" "\<not> hOverheat (fst s0)"
  shows "n \<le> length evs \<Longrightarrow>
     coolingInv (fst (stateAt cfg dirs evs s0 n)) \<and>
     (hOverheat (fst (stateAt cfg dirs evs s0 n)) \<longleftrightarrow>
       (\<exists>k<n. depletedAt cfg dirs evs s0 k \<and>
          (\<forall>j. k < j \<and> j \<le> n \<longrightarrow> hCooling (fst (stateAt cfg dirs evs s0 j)) \<noteq> 0)))"
proof (induction n)
  case 0
  then show ?case using init by (simp add: stateAt_0)
next
  case (Suc n)
  let ?st = "stateAt cfg dirs evs s0"
  let ?D = "depletedAt cfg dirs evs s0"
  let ?c = "\<lambda>j. hCooling (fst (?st j))"
  from Suc.prems have n: "n < length evs" by simp
  with Suc.IH have inv: "coolingInv (fst (?st n))"
    and flag: "hOverheat (fst (?st n)) \<longleftrightarrow> (\<exists>k<n. ?D k \<and> (\<forall>j. k < j \<and> j \<le> n \<longrightarrow> ?c j \<noteq> 0))"
    by simp_all
  have st: "?st (Suc n) = handle cfg dirs (evs ! n) (?st n)" by (rule stateAt_Suc [OF n])
  have step: "coolingInv (fst (?st (Suc n))) \<and>
      (hOverheat (fst (?st (Suc n))) \<longleftrightarrow> ?D n \<or> (hOverheat (fst (?st n)) \<and> ?c (Suc n) \<noteq> 0))"
  proof (cases "evs ! n")
    case (Frame w now)
    have "?st (Suc n) = loop cfg dirs w now (fst (?st n), snd (?st n))"
      using st Frame by simp
    then have "fst (?st (Suc n)) = fst (loop cfg dirs w now (fst (?st n), snd (?st n)))" by simp
    from loop_coolingInv [OF cd inv this] show ?thesis
      using Frame n by (simp add: depletedAt_def)
  next
    case (KeyDown key rep)
    then show ?thesis using st inv n by (auto simp add: depletedAt_def coolingInv_def key_fields)
  next
    case (KeyUp key)
    then show ?thesis using st inv n by (auto simp add: depletedAt_def coolingInv_def key_fields)
  qed
  then have inv': "coolingInv (fst (?st (Suc n)))"
    and flag': "hOverheat (fst (?st (Suc n))) \<longleftrightarrow> ?D n \<or> (hOverheat (fst (?st n)) \<and> ?c (Suc n) \<noteq> 0)"
    by simp_all
  have c': "hOverheat (fst (?st (Suc n))) \<longleftrightarrow> ?c (Suc n) \<noteq> 0"
    using inv' by (simp add: coolingInv_def)
  have "(\<exists>k<Suc n. ?D k \<and> (\<forall>j. k < j \<and> j \<le> Suc n \<longrightarrow> ?c j \<noteq> 0))
      \<longleftrightarrow> (?D n \<and> ?c (Suc n) \<noteq> 0) \<or>
          ((\<exists>k<n. ?D k \<and> (\<forall>j. k < j \<and> j \<le> n \<longrightarrow> ?c j \<noteq> 0)) \<and> ?c (Suc n) \<noteq> 0)"
    (is "?L \<longleftrightarrow> ?R")
  proof
    assume ?L
    then obtain k where k: "k < Suc n" "?D k" "\<forall>j. k < j \<and> j \<le> Suc n \<longrightarrow> ?c j \<noteq> 0" by blast
    then have last: "?c (Suc n) \<noteq> 0" by simp
    show ?R
    proof (cases "k = n")
      case True
      with k last show ?thesis by simp
    next
      case False
      with k have "k < n" by simp
      moreover have "\<forall>j. k < j \<and> j \<le> n \<longrightarrow> ?c j \<noteq> 0" using k(3) by simp
      ultimately show ?thesis using k(2) last by blast
    qed
  next
    assume ?R
    then show ?L
    proof
      assume "?D n \<and> ?c (Suc n) \<noteq> 0"
      then have "?D n \<and> (\<forall>j. n < j \<and> j \<le> Suc n \<longrightarrow> ?c j \<noteq> 0)"
        by (auto simp add: le_Suc_eq)
      then show ?L by blast
    next
      assume "(\<exists>k<n. ?D k \<and> (\<forall>j. k < j \<and> j \<le> n \<longrightarrow> ?c j \<noteq> 0)) \<and> ?c (Suc n) \<noteq> 0"
      then obtain k where k: "k < n" "?D k" "\<forall>j. k < j \<and> j \<le> n \<longrightarrow> ?c j \<noteq> 0"
        and last: "?c (Suc n) \<noteq> 0" by blast
      have "\<forall>j. k < j \<and> j \<le> Suc n \<longrightarrow> ?c j \<noteq> 0" using k(3) last by (auto simp add: le_Suc_eq)
      with k(1,2) show ?L by (meson less_Suc_eq)
    qed
  qed
  with flag flag' c' inv' show ?case by blast
qed

text \<open>
  C2. In a run from the state that \<^verbatim>\<open>setup()\<close> leaves, the overheat flag is true after \<open>n\<close>
  events exactly when some earlier event \<open>k\<close> was a frame of active pull that brought the
  charge to exactly 0 and the cooldown has been different from 0 in every state since
  then, up to the present one. It is false in the object literal and after \<^verbatim>\<open>setup()\<close>.
  The cooldown duration of the settings must be positive, as the 1 of the source is. The
  statement holds for every time step, so for the positive ones.
\<close>

theorem overheat_iff_depleted_and_cooling:
  assumes "0 < hCooldown cfg" and "s0 = setupGame cfg w t0 rnd" and "n \<le> length evs"
  shows "\<not> hOverheat (game0 cfg w t0) \<and> \<not> hOverheat (fst s0) \<and>
     (hOverheat (fst (stateAt cfg dirs evs s0 n)) \<longleftrightarrow>
       (\<exists>k<n. depletedAt cfg dirs evs s0 k \<and>
          (\<forall>j. k < j \<and> j \<le> n \<longrightarrow> hCooling (fst (stateAt cfg dirs evs s0 j)) \<noteq> 0)))"
proof -
  have cd: "hCooldown cfg \<noteq> 0" using assms(1) by simp
  have init: "coolingInv (fst s0)" "\<not> hOverheat (fst s0)"
    unfolding assms(2) by (simp_all add: coolingInv_def setupGame_fields)
  have "\<not> hOverheat (game0 cfg w t0)" by (simp add: game0_def)
  with init(2) overheat_trace [OF cd init assms(3), of dirs] show ?thesis by blast
qed

theorem overheat_iff_depleted_and_cooling_witness:
  "0 < hCooldown settings \<and>
   2 \<le> length [KeyDown ''h'' False, Frame arena1000 3000] \<and>
   hOverheat (fst (stateAt settings directions [KeyDown ''h'' False, Frame arena1000 3000]
       (setupGame settings arena1000 0 (sconst (1/2))) 2)) \<and>
   (\<exists>k<2. depletedAt settings directions [KeyDown ''h'' False, Frame arena1000 3000]
       (setupGame settings arena1000 0 (sconst (1/2))) k)"
proof -
  let ?evs = "[KeyDown ''h'' False, Frame arena1000 3000]"
  let ?s0 = "setupGame settings arena1000 0 (sconst (1/2))"
  have cd: "0 < hCooldown settings" by (simp add: settings_def)
  have len: "2 \<le> length ?evs" by simp
  have flag: "hOverheat (fst (stateAt settings directions ?evs ?s0 2))"
    by (simp add: stateAt_def run_deplete)
  from overheat_iff_depleted_and_cooling [OF cd refl len, of arena1000 0 "sconst (1/2)" directions] flag
  have "\<exists>k<2. depletedAt settings directions ?evs ?s0 k" by blast
  with cd len flag show ?thesis by blast
qed

text \<open>
  C10. Take any state reached from \<^verbatim>\<open>setup()\<close> in which the overheat flag is set, and a
  frame that clears it. After that frame the cooldown is 0 and the charge is what it was,
  exactly 0: nothing was regenerated. If the game is still playing, the next frame,
  whatever keys are held by then, sets the charge to \<open>min hMax (0 + hRegen * dt)\<close> for its
  own time step \<open>dt\<close>.
\<close>

theorem no_regeneration_when_overheat_clears:
  assumes "s = run cfg dirs evs (setupGame cfg w0 t0 rnd)"
    and "hOverheat (fst s)"
    and "s' = loop cfg dirs w now s"
    and "\<not> hOverheat (fst s')"
  shows "hCooling (fst s') = 0 \<and> hLeft (fst s') = hLeft (fst s) \<and> hLeft (fst s') = 0 \<and>
     (playing (fst s') \<longrightarrow>
        (\<forall>ks w' now' r'.
           hLeft (fst (loop cfg dirs w' now' ((fst s')\<lparr>keys := ks\<rparr>, r'))) =
             min (hMax cfg) (0 + hRegen cfg * ((now' - now) / 1000))))"
proof -
  obtain g r where s: "s = (g, r)" by (cases s)
  have "zeroInv (fst (setupGame cfg w0 t0 rnd))" by (simp add: zeroInv_def setupGame_fields)
  then have "zeroInv (fst s)" unfolding assms(1) by (rule run_zeroInv)
  with assms(2) s have l0: "hLeft g = 0" by (simp add: zeroInv_def)
  have ov: "hOverheat g" using assms(2) s by simp
  have pl: "playing g"
  proof (rule ccontr)
    assume "\<not> playing g"
    then have "hOverheat (fst s') = hOverheat g" unfolding assms(3) s by (simp add: loop_dead)
    with ov assms(4) show False by simp
  qed
  have nu: "\<not> usingH g" using ov usingH_not_overheat by blast
  have g': "fst s' = fst (loop cfg dirs w now (g, r))" unfolding assms(3) s by simp
  from loop_pullH [OF pl g'] ov nu assms(4)
  have a: "hLeft (fst s') = hLeft g" and b: "hCooling (fst s') = 0"
    by (auto simp add: pullH_def split: if_splits)
  have next_frame: "hLeft (fst (loop cfg dirs w' now' ((fst s')\<lparr>keys := ks\<rparr>, r'))) =
      min (hMax cfg) (0 + hRegen cfg * ((now' - now) / 1000))"
    if p: "playing (fst s')" for ks w' now' r'
  proof -
    let ?g1 = "(fst s')\<lparr>keys := ks\<rparr>"
    have p1: "playing ?g1" using p by simp
    have "\<not> usingH ?g1" using a l0 by (simp add: usingH_def canUseH_def)
    moreover have "lastFrame ?g1 = now" using loop_lastFrame [of cfg dirs w now s] assms(3) by simp
    moreover have "hLeft ?g1 = 0" "\<not> hOverheat ?g1" using a l0 assms(4) by simp_all
    ultimately show ?thesis
      using loop_pullH [OF p1 refl, where cfg = cfg and dirs = dirs and w = w' and now = now' and r = r']
      by (simp add: pullH_def)
  qed
  from a b l0 next_frame s show ?thesis by simp
qed

theorem no_regeneration_when_overheat_clears_witness:
  "hOverheat (fst (run settings directions [KeyDown ''h'' False, Frame arena1000 3000]
      (setupGame settings arena1000 0 (sconst (1/2))))) \<and>
   \<not> hOverheat (fst (loop settings directions arena1000 4000
      (run settings directions [KeyDown ''h'' False, Frame arena1000 3000]
        (setupGame settings arena1000 0 (sconst (1/2)))))) \<and>
   hLeft (fst (loop settings directions arena1000 4000
      (run settings directions [KeyDown ''h'' False, Frame arena1000 3000]
        (setupGame settings arena1000 0 (sconst (1/2)))))) = 0 \<and>
   hLeft (fst (loop settings directions arena1000 4500
      ((fst (loop settings directions arena1000 4000
          (run settings directions [KeyDown ''h'' False, Frame arena1000 3000]
            (setupGame settings arena1000 0 (sconst (1/2))))))\<lparr>keys := [''h'']\<rparr>,
       sconst (1/2)))) = 3 / 10"
proof -
  let ?s = "run settings directions [KeyDown ''h'' False, Frame arena1000 3000]
      (setupGame settings arena1000 0 (sconst (1/2)))"
  let ?s' = "loop settings directions arena1000 4000 ?s"
  have ov: "hOverheat (fst ?s)" by (simp add: run_deplete)
  have cl: "\<not> hOverheat (fst ?s')" by (simp add: run_deplete loop_clear)
  have pl: "playing (fst ?s')" by (simp add: run_deplete loop_clear)
  from no_regeneration_when_overheat_clears [OF refl ov refl cl] pl
  have "hLeft (fst ?s') = 0"
    and "hLeft (fst (loop settings directions arena1000 4500
           ((fst ?s')\<lparr>keys := [''h'']\<rparr>, sconst (1/2)))) =
         min (hMax settings) (0 + hRegen settings * ((4500 - 4000) / 1000))"
    by blast+
  then show ?thesis using ov cl by (simp add: settings_def)
qed

section \<open>Frames after the game is over\<close>

text \<open>
  C3, as the code has it. When \<^verbatim>\<open>game.playing\<close> is false, \<^verbatim>\<open>loop(now)\<close> stores \<open>now\<close> in
  \<^verbatim>\<open>game.lastFrame\<close>, which line 100 does before the test of line 101, and changes no other
  field; it makes no draw. A second call gives what it would have given alone, so
  repeated calls with one timestamp are idempotent.
\<close>

theorem dead_frame_only_stores_timestamp:
  assumes "\<not> playing g"
  shows "loop cfg dirs w now (g, rnd) = (g\<lparr>lastFrame := now\<rparr>, rnd) \<and>
     loop cfg dirs w' now' (loop cfg dirs w now (g, rnd)) = loop cfg dirs w' now' (g, rnd)"
  using assms by (simp add: loop_dead)

theorem dead_frame_only_stores_timestamp_witness:
  "\<not> playing (fst (run settings directions [Frame arena100 1000]
        (setupGame settings arena100 0 (sconst 0)))) \<and>
   loop settings directions arena100 2000
     (run settings directions [Frame arena100 1000] (setupGame settings arena100 0 (sconst 0))) =
   (\<lparr>playing = False, x = - 155, y = - 155, sx = - (3977 / 20),
       sy = - (3977 / 20), keys = [], hLeft = 3, hCooling = 0,
       hOverheat = False, time = 0, lastFrame = 2000, driftX = - 160,
       driftY = - 160, driftTimer = 3 / 5\<rparr>, sconst 0)"
proof -
  let ?g = "\<lparr>playing = False, x = - 155, y = - 155, sx = - (3977 / 20),
       sy = - (3977 / 20), keys = [], hLeft = 3, hCooling = 0,
       hOverheat = False, time = 0, lastFrame = 1000, driftX = - 160,
       driftY = - 160, driftTimer = 3 / 5\<rparr> :: game"
  have d: "\<not> playing ?g" by simp
  from dead_frame_only_stores_timestamp [OF d, of settings directions arena100 2000 "sconst 0"]
  show ?thesis by (simp add: run_out)
qed

text \<open>
  The claim as stated, with the timestamp unchanged, fails on a game that drifted out of
  a small arena in its first frame: the next frame moves \<^verbatim>\<open>lastFrame\<close> from 1000 to 2000.
\<close>

theorem dead_frame_changes_lastFrame:
  "\<not> playing (fst (run settings directions [Frame arena100 1000]
        (setupGame settings arena100 0 (sconst 0)))) \<and>
   fst (loop settings directions arena100 2000
     (run settings directions [Frame arena100 1000] (setupGame settings arena100 0 (sconst 0))))
   \<noteq> fst (run settings directions [Frame arena100 1000] (setupGame settings arena100 0 (sconst 0)))"
  by (simp add: run_out loop_dead)

section \<open>The boundary test\<close>

lemma playing_drift: "playing (fst (drift cfg dt s)) = playing (fst s)"
  by (simp add: drift_def pickNewDrift_def Let_def split_def)

lemma playing_wiggle: "playing (fst (wiggle cfg dt u s)) = playing (fst s)"
  by (simp add: wiggle_def split_def)

lemma playing_push: "playing (push cfg dirs dt g) = playing g"
  by (simp add: push_def Let_def)

lemma playing_pull: "playing (pull cfg c dt u g) = playing g"
  by (simp add: pull_def Let_def)

lemma playing_move: "playing (move cfg dt g) = playing g"
  by (simp add: move_def Let_def)

lemma outOfCircle_upd:
  "outOfCircle cfg c rad (g\<lparr>playing := b\<rparr>) = outOfCircle cfg c rad g"
  "outOfCircle cfg c rad (g\<lparr>time := t\<rparr>) = outOfCircle cfg c rad g"
  by (simp_all add: outOfCircle_def)

lemma loop_playing:
  "playing g \<Longrightarrow>
   playing (fst (loop cfg dirs w now (g, rnd))) =
     (\<not> outOfCircle cfg (center w) (radius w) (fst (loop cfg dirs w now (g, rnd))))"
  by (simp add: loop_def Let_def split_def outOfCircle_upd playing_move playing_pull
      playing_push playing_wiggle playing_drift)

text \<open>
  C5. A frame of a game that is playing ends the game exactly when \<open>outOfCircle\<close> holds
  of the position it has reached, for the centre and the radius of the window; and
  \<open>outOfCircle\<close> says that the Euclidean distance from the position to the centre is
  strictly greater than the radius minus half of \<open>blobSize\<close>. With the settings of the
  source (\<open>blobSize = 40\<close>), centre (0, 0) and radius 200, a position at distance exactly
  180 is inside and a position at distance 180.01 is outside.
\<close>

theorem boundary_check:
  "(playing g \<longrightarrow>
      (\<not> playing (fst (loop cfg dirs w now (g, rnd)))) =
        outOfCircle cfg (center w) (radius w) (fst (loop cfg dirs w now (g, rnd)))) \<and>
   outOfCircle cfg c rad g =
     (sqrt ((x g - vx c)\<^sup>2 + (y g - vy c)\<^sup>2) > rad - blobSize cfg / 2) \<and>
   (sqrt ((x g)\<^sup>2 + (y g)\<^sup>2) = 180 \<longrightarrow> \<not> outOfCircle settings \<lparr>vx = 0, vy = 0\<rparr> 200 g) \<and>
   (sqrt ((x g)\<^sup>2 + (y g)\<^sup>2) = 180.01 \<longrightarrow> outOfCircle settings \<lparr>vx = 0, vy = 0\<rparr> 200 g)"
  by (simp add: loop_playing outOfCircle_def hypot_def settings_def)

theorem boundary_check_witness:
  "sqrt ((x (game0 settings \<lparr>innerWidth = 216, innerHeight = 288\<rparr> 0))\<^sup>2 +
         (y (game0 settings \<lparr>innerWidth = 216, innerHeight = 288\<rparr> 0))\<^sup>2) = 180 \<and>
   \<not> outOfCircle settings \<lparr>vx = 0, vy = 0\<rparr> 200
       (game0 settings \<lparr>innerWidth = 216, innerHeight = 288\<rparr> 0) \<and>
   sqrt ((x ((game0 settings arena1000 0)\<lparr>x := 180.01, y := 0\<rparr>))\<^sup>2 +
         (y ((game0 settings arena1000 0)\<lparr>x := 180.01, y := 0\<rparr>))\<^sup>2) = 180.01 \<and>
   outOfCircle settings \<lparr>vx = 0, vy = 0\<rparr> 200 ((game0 settings arena1000 0)\<lparr>x := 180.01, y := 0\<rparr>)"
proof -
  let ?g = "game0 settings \<lparr>innerWidth = 216, innerHeight = 288\<rparr> 0"
  let ?h = "(game0 settings arena1000 0)\<lparr>x := 180.01, y := 0\<rparr>"
  have a: "sqrt ((x ?g)\<^sup>2 + (y ?g)\<^sup>2) = 180"
    by (simp add: game0_def sqrt_108_144)
  have b: "sqrt ((x ?h)\<^sup>2 + (y ?h)\<^sup>2) = 180.01"
    by simp
  from boundary_check [of ?g settings directions arena1000 0 "sconst 0" "\<lparr>vx = 0, vy = 0\<rparr>" 200] a
  have "\<not> outOfCircle settings \<lparr>vx = 0, vy = 0\<rparr> 200 ?g" by blast
  moreover
  from boundary_check [of ?h settings directions arena1000 0 "sconst 0" "\<lparr>vx = 0, vy = 0\<rparr>" 200] b
  have "outOfCircle settings \<lparr>vx = 0, vy = 0\<rparr> 200 ?h" by blast
  ultimately show ?thesis using a b by blast
qed

section \<open>Five idle seconds\<close>

lemma drift_rest:
  assumes "driftPower cfg = 0" and "restInv w g" and "drift cfg dt (g, rnd) = (g', rnd')"
  shows "restInv w g' \<and> time g' = time g \<and> lastFrame g' = lastFrame g"
  using assms by (auto simp add: drift_def pickNewDrift_def Let_def restInv_def split: if_splits)

lemma wiggle_rest:
  assumes "randomShake cfg = 0" and "restInv w g" and "wiggle cfg dt u (g, rnd) = (g', rnd')"
  shows "restInv w g' \<and> time g' = time g \<and> lastFrame g' = lastFrame g"
  using assms by (auto simp add: wiggle_def restInv_def split: if_splits)

lemma push_rest:
  assumes "restInv w g"
  shows "restInv w (push cfg dirs dt g) \<and> time (push cfg dirs dt g) = time g"
  using assms by (simp add: push_def restInv_def)

lemma pull_rest:
  assumes "restInv w g"
  shows "restInv w (pull cfg c dt False g) \<and> time (pull cfg c dt False g) = time g"
  using assms by (simp add: pull_def restInv_def Let_def)

lemma move_rest:
  assumes "restInv w g"
  shows "restInv w (move cfg dt g) \<and> time (move cfg dt g) = time g"
  using assms by (simp add: move_def restInv_def Let_def)

lemma outOfCircle_rest:
  assumes "restInv w g" and "blobSize cfg / 2 \<le> radius w"
  shows "\<not> outOfCircle cfg (center w) (radius w) g"
proof -
  have "x g - vx (center w) = 0" "y g - vy (center w) = 0"
    using assms(1) by (simp_all add: restInv_def center_def)
  then have "hypot (x g - vx (center w)) (y g - vy (center w)) = 0"
    by (simp add: hypot_def)
  with assms(2) show ?thesis by (simp add: outOfCircle_def)
qed

lemma loop_rest:
  assumes cfg: "driftPower cfg = 0" "randomShake cfg = 0" "blobSize cfg / 2 \<le> radius w"
    and inv: "restInv w g"
  shows "restInv w (fst (loop cfg dirs w now (g, rnd))) \<and>
     time (fst (loop cfg dirs w now (g, rnd))) = time g + (now - lastFrame g) / 1000"
proof -
  let ?dt = "(now - lastFrame g) / 1000"
  let ?g0 = "g\<lparr>lastFrame := now\<rparr>"
  have i0: "restInv w ?g0" and t0: "time ?g0 = time g" using inv by (simp_all add: restInv_def)
  have u: "usingH ?g0 = False" using inv by (simp add: usingH_def restInv_def)
  obtain g1 r1 where d: "drift cfg ?dt (?g0, rnd) = (g1, r1)" by (cases "drift cfg ?dt (?g0, rnd)")
  obtain g2 r2 where wg: "wiggle cfg ?dt False (g1, r1) = (g2, r2)"
    by (cases "wiggle cfg ?dt False (g1, r1)")
  from drift_rest [OF cfg(1) i0 d] have i1: "restInv w g1" and t1: "time g1 = time g"
    using t0 by simp_all
  from wiggle_rest [OF cfg(2) i1 wg] have i2: "restInv w g2" and t2: "time g2 = time g"
    using t1 by simp_all
  let ?g5 = "move cfg ?dt (pull cfg (center w) ?dt False (push cfg dirs ?dt g2))"
  have i5: "restInv w ?g5" and t5: "time ?g5 = time g"
    using i2 t2 move_rest pull_rest push_rest by metis+
  have o: "\<not> outOfCircle cfg (center w) (radius w) ?g5"
    using i5 cfg(3) by (rule outOfCircle_rest)
  have "loop cfg dirs w now (g, rnd) = (?g5\<lparr>time := time ?g5 + ?dt\<rparr>, r2)"
    using inv o by (simp add: loop_def Let_def u d wg restInv_def)
  with i5 t5 show ?thesis by (simp add: restInv_def)
qed

lemma loop_rest_state:
  assumes "driftPower cfg = 0" "randomShake cfg = 0" "blobSize cfg / 2 \<le> radius w"
    and "restInv w (fst s)"
  shows "restInv w (fst (loop cfg dirs w now s)) \<and>
     time (fst (loop cfg dirs w now s)) = time (fst s) + (now - lastFrame (fst s)) / 1000 \<and>
     lastFrame (fst (loop cfg dirs w now s)) = now"
  using loop_rest [OF assms(1-3), of "fst s" dirs now "snd s"] assms(4)
  by (simp add: loop_lastFrame)

lemma setupGame_rest:
  "driftPower cfg = 0 \<Longrightarrow> restInv w (fst (setupGame cfg w t0 rnd)) \<and>
     time (fst (setupGame cfg w t0 rnd)) = 0"
  by (simp add: setupGame_def game0_def pickNewDrift_def restInv_def Let_def)

text \<open>
  C6, as the code has it. With no key held the pull is not in use, so the wiggle of lines
  114 to 117 is applied in every frame; a drift strength of 0 does not silence it. When
  the wiggle strength \<open>randomShake\<close> is configured to 0 as well, and the arena is at least
  as wide as the blob (\<open>blobSize / 2 \<le> radius\<close>), five frames of one second each from the
  state that \<^verbatim>\<open>setup()\<close> leaves keep the blob exactly in the centre of the window, bring
  the clock to 5 and leave the game playing, whatever the draws are.
\<close>

theorem five_idle_seconds_at_center:
  assumes "driftPower cfg = 0" and "randomShake cfg = 0" and "blobSize cfg / 2 \<le> radius w"
    and "g = fst (run cfg dirs
           [Frame w (t0 + 1000), Frame w (t0 + 2000), Frame w (t0 + 3000),
            Frame w (t0 + 4000), Frame w (t0 + 5000)]
           (setupGame cfg w t0 rnd))"
  shows "x g = innerWidth w / 2 \<and> y g = innerHeight w / 2 \<and> time g = 5 \<and> playing g"
proof -
  note step = loop_rest_state [OF assms(1-3)]
  let ?s0 = "setupGame cfg w t0 rnd"
  let ?s1 = "loop cfg dirs w (t0 + 1000) ?s0"
  let ?s2 = "loop cfg dirs w (t0 + 2000) ?s1"
  let ?s3 = "loop cfg dirs w (t0 + 3000) ?s2"
  let ?s4 = "loop cfg dirs w (t0 + 4000) ?s3"
  let ?s5 = "loop cfg dirs w (t0 + 5000) ?s4"
  have i0: "restInv w (fst ?s0)" and c0: "time (fst ?s0) = 0" and l0: "lastFrame (fst ?s0) = t0"
    using setupGame_rest [OF assms(1)] by (simp_all add: setupGame_fields)
  from step [OF i0, of dirs "t0 + 1000"] c0 l0
  have i1: "restInv w (fst ?s1)" and c1: "time (fst ?s1) = 1"
    and l1: "lastFrame (fst ?s1) = t0 + 1000" by simp_all
  from step [OF i1, of dirs "t0 + 2000"] c1 l1
  have i2: "restInv w (fst ?s2)" and c2: "time (fst ?s2) = 2"
    and l2: "lastFrame (fst ?s2) = t0 + 2000" by simp_all
  from step [OF i2, of dirs "t0 + 3000"] c2 l2
  have i3: "restInv w (fst ?s3)" and c3: "time (fst ?s3) = 3"
    and l3: "lastFrame (fst ?s3) = t0 + 3000" by simp_all
  from step [OF i3, of dirs "t0 + 4000"] c3 l3
  have i4: "restInv w (fst ?s4)" and c4: "time (fst ?s4) = 4"
    and l4: "lastFrame (fst ?s4) = t0 + 4000" by simp_all
  from step [OF i4, of dirs "t0 + 5000"] c4 l4
  have i5: "restInv w (fst ?s5)" and c5: "time (fst ?s5) = 5" by simp_all
  have "g = fst ?s5" unfolding assms(4) by (simp add: run_def)
  with i5 c5 show ?thesis by (simp add: restInv_def)
qed

theorem five_idle_seconds_at_center_witness:
  "driftPower (settings\<lparr>driftPower := 0, randomShake := 0\<rparr>) = 0 \<and>
   randomShake (settings\<lparr>driftPower := 0, randomShake := 0\<rparr>) = 0 \<and>
   blobSize (settings\<lparr>driftPower := 0, randomShake := 0\<rparr>) / 2 \<le> radius arena1000 \<and>
   x (fst (run (settings\<lparr>driftPower := 0, randomShake := 0\<rparr>) directions
       [Frame arena1000 (0 + 1000), Frame arena1000 (0 + 2000), Frame arena1000 (0 + 3000),
        Frame arena1000 (0 + 4000), Frame arena1000 (0 + 5000)]
       (setupGame (settings\<lparr>driftPower := 0, randomShake := 0\<rparr>) arena1000 0 (sconst (2/5)))))
     = 500 \<and>
   time (fst (run (settings\<lparr>driftPower := 0, randomShake := 0\<rparr>) directions
       [Frame arena1000 (0 + 1000), Frame arena1000 (0 + 2000), Frame arena1000 (0 + 3000),
        Frame arena1000 (0 + 4000), Frame arena1000 (0 + 5000)]
       (setupGame (settings\<lparr>driftPower := 0, randomShake := 0\<rparr>) arena1000 0 (sconst (2/5)))))
     = 5"
proof -
  let ?cfg = "settings\<lparr>driftPower := 0, randomShake := 0\<rparr>"
  have h: "driftPower ?cfg = 0" "randomShake ?cfg = 0" "blobSize ?cfg / 2 \<le> radius arena1000"
    by (simp_all add: settings_def radius_def)
  from five_idle_seconds_at_center [OF h refl, of directions 0 "sconst (2/5)"] h
  show ?thesis by simp
qed

text \<open>
  The claim as stated, with only the drift strength at 0, fails when every draw is 2/5:
  the wiggle pushes the blob by -9 per second on both axes and after five seconds it is
  at x = 370.27995071, not at 500.
\<close>

theorem five_idle_seconds_wiggle_moves_blob:
  "driftPower (settings\<lparr>driftPower := 0\<rparr>) = 0 \<and>
   x (fst (run (settings\<lparr>driftPower := 0\<rparr>) directions
       [Frame arena1000 1000, Frame arena1000 2000, Frame arena1000 3000, Frame arena1000 4000,
        Frame arena1000 5000]
       (setupGame (settings\<lparr>driftPower := 0\<rparr>) arena1000 0 (sconst (2/5)))))
     \<noteq> innerWidth arena1000 / 2 \<and>
   x (fst (setupGame (settings\<lparr>driftPower := 0\<rparr>) arena1000 0 (sconst (2/5))))
     = innerWidth arena1000 / 2 \<and>
   keys (fst (setupGame (settings\<lparr>driftPower := 0\<rparr>) arena1000 0 (sconst (2/5)))) = []"
  unfolding run5 by (simp add: setupGame_def game0_def pickNewDrift_def)

section \<open>The drift timer\<close>

lemma unitDraws_shd: "unitDraws rnd \<Longrightarrow> 0 \<le> shd rnd \<and> shd rnd < 1"
  by (simp add: unitDraws_def shd_sset)

lemma unitDraws_stl: "unitDraws rnd \<Longrightarrow> unitDraws (stl rnd)"
  by (auto simp add: unitDraws_def dest: stl_sset)

lemma driftTimer_wiggle: "driftTimer (fst (wiggle cfg dt u s)) = driftTimer (fst s)"
  by (simp add: wiggle_def split_def)

lemma driftTimer_push: "driftTimer (push cfg dirs dt g) = driftTimer g"
  by (simp add: push_def Let_def)

lemma driftTimer_pull: "driftTimer (pull cfg c dt u g) = driftTimer g"
  by (simp add: pull_def Let_def)

lemma driftTimer_move: "driftTimer (move cfg dt g) = driftTimer g"
  by (simp add: move_def Let_def)

lemma driftTimer_drift:
  "driftTimer (fst (drift cfg dt (g, rnd))) =
     (if driftTimer g - dt \<le> 0
      then driftChangeMin cfg + shd (stl (stl rnd)) * (driftChangeMax cfg - driftChangeMin cfg)
      else driftTimer g - dt)"
  by (simp add: drift_def pickNewDrift_def Let_def)

lemma loop_driftTimer:
  "playing g \<Longrightarrow>
   driftTimer (fst (loop cfg dirs w now (g, rnd))) =
     (if driftTimer g - (now - lastFrame g) / 1000 \<le> 0
      then driftChangeMin cfg + shd (stl (stl rnd)) * (driftChangeMax cfg - driftChangeMin cfg)
      else driftTimer g - (now - lastFrame g) / 1000)"
  using driftTimer_drift [of cfg "(now - lastFrame g) / 1000" "g\<lparr>lastFrame := now\<rparr>" rnd]
  by (simp add: loop_def Let_def split_def driftTimer_move driftTimer_pull driftTimer_push
      driftTimer_wiggle)

lemma resample_range:
  fixes lo hi u :: real
  assumes "0 < lo" and "lo \<le> hi" and "0 \<le> u" and "u < 1"
  shows "lo \<le> lo + u * (hi - lo) \<and> lo + u * (hi - lo) \<le> hi \<and> 0 < lo + u * (hi - lo)"
proof -
  have d: "0 \<le> hi - lo" using assms(2) by simp
  have a: "0 \<le> u * (hi - lo)" using assms(3) d by (rule mult_nonneg_nonneg)
  have "u * (hi - lo) \<le> 1 * (hi - lo)" using assms(4) d by (intro mult_right_mono) simp_all
  with a assms(1) show ?thesis by simp
qed

lemma unitDraws_drift: "unitDraws (snd s) \<Longrightarrow> unitDraws (snd (drift cfg dt s))"
  by (simp add: drift_def pickNewDrift_def Let_def split_def unitDraws_stl)

lemma unitDraws_wiggle: "unitDraws (snd s) \<Longrightarrow> unitDraws (snd (wiggle cfg dt u s))"
  by (simp add: wiggle_def split_def unitDraws_stl)

lemma unitDraws_loop: "unitDraws (snd s) \<Longrightarrow> unitDraws (snd (loop cfg dirs w now s))"
  by (simp add: loop_def Let_def split_def unitDraws_wiggle unitDraws_drift)

lemma loop_driftTimer_pos:
  assumes "0 < driftChangeMin cfg" and "driftChangeMin cfg \<le> driftChangeMax cfg"
    and "unitDraws rnd" and "playing g \<or> 0 < driftTimer g"
  shows "0 < driftTimer (fst (loop cfg dirs w now (g, rnd)))"
proof (cases "playing g")
  case True
  have u: "0 \<le> shd (stl (stl rnd)) \<and> shd (stl (stl rnd)) < 1"
    using assms(3) by (intro unitDraws_shd unitDraws_stl)
  show ?thesis
    using resample_range [OF assms(1,2), of "shd (stl (stl rnd))"] u
    by (simp add: loop_driftTimer [OF True])
next
  case False
  with assms(4) show ?thesis by (simp add: loop_dead)
qed

lemma run_driftTimer_pos:
  assumes "0 < driftChangeMin cfg" and "driftChangeMin cfg \<le> driftChangeMax cfg"
  shows "unitDraws (snd s) \<Longrightarrow> 0 < driftTimer (fst s) \<Longrightarrow>
     0 < driftTimer (fst (run cfg dirs evs s)) \<and> unitDraws (snd (run cfg dirs evs s))"
proof (induction evs arbitrary: s)
  case Nil
  then show ?case by (simp add: run_def)
next
  case (Cons e evs)
  have "0 < driftTimer (fst (handle cfg dirs e s)) \<and> unitDraws (snd (handle cfg dirs e s))"
  proof (cases e)
    case (Frame w now)
    with Cons.prems loop_driftTimer_pos [OF assms, of "snd s" "fst s" dirs w now]
    show ?thesis by (simp add: unitDraws_loop)
  next
    case (KeyDown key rep)
    with Cons.prems show ?thesis by (simp add: keydown_def)
  next
    case (KeyUp key)
    with Cons.prems show ?thesis by (simp add: keyup_def)
  qed
  with Cons.IH [of "handle cfg dirs e s"] show ?case by (simp add: run_Cons)
qed

lemma setupGame_driftTimer:
  "driftTimer (fst (setupGame cfg w t0 rnd)) =
     driftChangeMin cfg + shd (stl (stl rnd)) * (driftChangeMax cfg - driftChangeMin cfg)"
  "snd (setupGame cfg w t0 rnd) = stl (stl (stl rnd))"
  by (simp_all add: setupGame_def pickNewDrift_def Let_def)

text \<open>
  C9. Let the interval bounds satisfy \<open>0 < driftChangeMin \<le> driftChangeMax\<close> and every draw
  be in \<open>[0, 1)\<close>. In a frame of a game that is playing, if the timer minus the time step
  is at most 0 then the timer is resampled in that same frame: it becomes
  \<open>driftChangeMin + u * (driftChangeMax - driftChangeMin)\<close> for the third draw \<open>u\<close> of the
  frame (the first two give the new drift vector), a value between \<open>driftChangeMin\<close> and
  \<open>driftChangeMax\<close>; otherwise it is the old timer minus the time step. In every case the
  timer is greater than 0 when the frame ends. \<^verbatim>\<open>setup()\<close> samples the timer in the same way,
  so the timer is greater than 0 after every run of frames and keyboard events from the
  state that \<^verbatim>\<open>setup()\<close> leaves. This holds for every time step. That the draws are
  uniformly distributed is a property of \<^verbatim>\<open>Math.random()\<close> and is not part of the
  statement.
\<close>

theorem drift_timer_resampled_positive:
  assumes "0 < driftChangeMin cfg" and "driftChangeMin cfg \<le> driftChangeMax cfg"
    and "\<forall>u\<in>sset rnd. 0 \<le> u \<and> u < 1"
    and "g' = fst (loop cfg dirs w now (g, rnd))"
  shows "(playing g \<longrightarrow>
      driftTimer g' =
        (if driftTimer g - (now - lastFrame g) / 1000 \<le> 0
         then driftChangeMin cfg + shd (stl (stl rnd)) * (driftChangeMax cfg - driftChangeMin cfg)
         else driftTimer g - (now - lastFrame g) / 1000) \<and>
      (driftTimer g - (now - lastFrame g) / 1000 \<le> 0 \<longrightarrow>
         driftChangeMin cfg \<le> driftTimer g' \<and> driftTimer g' \<le> driftChangeMax cfg) \<and>
      0 < driftTimer g') \<and>
     driftTimer (fst (setupGame cfg w0 t0 rnd)) =
       driftChangeMin cfg + shd (stl (stl rnd)) * (driftChangeMax cfg - driftChangeMin cfg) \<and>
     0 < driftTimer (fst (run cfg dirs evs (setupGame cfg w0 t0 rnd)))"
proof -
  have ud: "unitDraws rnd" using assms(3) by (simp add: unitDraws_def)
  have u: "0 \<le> shd (stl (stl rnd)) \<and> shd (stl (stl rnd)) < 1"
    using ud by (intro unitDraws_shd unitDraws_stl)
  note rr = resample_range [OF assms(1,2), of "shd (stl (stl rnd))"]
  have eq: "driftTimer g' =
        (if driftTimer g - (now - lastFrame g) / 1000 \<le> 0
         then driftChangeMin cfg + shd (stl (stl rnd)) * (driftChangeMax cfg - driftChangeMin cfg)
         else driftTimer g - (now - lastFrame g) / 1000)" if "playing g"
    unfolding assms(4) by (rule loop_driftTimer [OF that])
  have one: "(driftTimer g - (now - lastFrame g) / 1000 \<le> 0 \<longrightarrow>
         driftChangeMin cfg \<le> driftTimer g' \<and> driftTimer g' \<le> driftChangeMax cfg) \<and>
      0 < driftTimer g'" if "playing g"
    unfolding assms(4) using rr u by (simp add: loop_driftTimer [OF that])
  have "unitDraws (snd (setupGame cfg w0 t0 rnd))"
    using ud by (simp add: setupGame_driftTimer unitDraws_stl)
  moreover have "0 < driftTimer (fst (setupGame cfg w0 t0 rnd))"
    using rr u by (simp add: setupGame_driftTimer)
  ultimately have "0 < driftTimer (fst (run cfg dirs evs (setupGame cfg w0 t0 rnd)))"
    using run_driftTimer_pos [OF assms(1,2)] by blast
  with eq one setupGame_driftTimer(1) [of cfg w0 t0 rnd] show ?thesis by blast
qed

theorem drift_timer_resampled_positive_witness:
  "0 < driftChangeMin settings \<and> driftChangeMin settings \<le> driftChangeMax settings \<and>
   playing (fst (setupGame settings arena1000 0 (sconst (2/5)))) \<and>
   driftTimer (fst (setupGame settings arena1000 0 (sconst (2/5)))) = 23 / 25 \<and>
   driftTimer (fst (setupGame settings arena1000 0 (sconst (2/5))))
     - (1000 - lastFrame (fst (setupGame settings arena1000 0 (sconst (2/5))))) / 1000 \<le> 0 \<and>
   driftTimer (fst (loop settings directions arena1000 1000
       (fst (setupGame settings arena1000 0 (sconst (2/5))),
        1/4 ## 1/2 ## 3/4 ## sconst (2/5)))) = 6 / 5 \<and>
   0 < driftTimer (fst (loop settings directions arena1000 1000
       (fst (setupGame settings arena1000 0 (sconst (2/5))),
        1/4 ## 1/2 ## 3/4 ## sconst (2/5))))"
proof -
  let ?g = "fst (setupGame settings arena1000 0 (sconst (2/5)))"
  let ?rnd = "1/4 ## 1/2 ## 3/4 ## sconst (2/5 :: real)"
  have h: "0 < driftChangeMin settings" "driftChangeMin settings \<le> driftChangeMax settings"
    by (simp_all add: settings_def)
  have d: "\<forall>u\<in>sset ?rnd. 0 \<le> u \<and> u < 1" by simp
  have p: "playing ?g" by (simp add: setupGame_fields)
  have v: "driftTimer ?g = 23 / 25"
    by (simp add: setupGame_driftTimer settings_def)
  have t: "driftTimer ?g - (1000 - lastFrame ?g) / 1000 \<le> 0"
    by (simp add: setupGame_fields v)
  note T = drift_timer_resampled_positive [OF h d refl, where dirs = directions
      and w = arena1000 and now = 1000 and g = ?g]
  from T p have e: "driftTimer (fst (loop settings directions arena1000 1000 (?g, ?rnd))) =
      (if driftTimer ?g - (1000 - lastFrame ?g) / 1000 \<le> 0
       then driftChangeMin settings
         + shd (stl (stl ?rnd)) * (driftChangeMax settings - driftChangeMin settings)
       else driftTimer ?g - (1000 - lastFrame ?g) / 1000)"
    and pos: "0 < driftTimer (fst (loop settings directions arena1000 1000 (?g, ?rnd)))"
    by blast+
  from e have "driftTimer (fst (loop settings directions arena1000 1000 (?g, ?rnd))) =
      driftChangeMin settings
        + shd (stl (stl ?rnd)) * (driftChangeMax settings - driftChangeMin settings)"
    by (simp only: t if_True)
  then have "driftTimer (fst (loop settings directions arena1000 1000 (?g, ?rnd))) = 6 / 5"
    by (simp add: settings_def)
  with pos h p v t show ?thesis by blast
qed

section \<open>The keyboard map\<close>

lemma setKeys_other:
  "k \<notin> (\<lambda>ch. [ch]) ` set row \<Longrightarrow>
   fold (\<lambda>(c, key) m'. m'([key] \<mapsto> f c)) (enumerate n row) m k = m k"
  by (induction row arbitrary: n m) auto

lemma setKeys_nth:
  "distinct row \<Longrightarrow> i < length row \<Longrightarrow>
   fold (\<lambda>(c, key) m'. m'([key] \<mapsto> f c)) (enumerate n row) m [row ! i] = Some (f (n + i))"
proof (induction row arbitrary: n m i)
  case Nil
  then show ?case by simp
next
  case (Cons a row)
  show ?case
  proof (cases i)
    case 0
    have "[a] \<notin> (\<lambda>ch. [ch]) ` set row" using Cons.prems(1) by auto
    then have "fold (\<lambda>(c, key) m'. m'([key] \<mapsto> f c)) (enumerate (Suc n) row) (m([a] \<mapsto> f n)) [a]
        = (m([a] \<mapsto> f n)) [a]"
      by (rule setKeys_other)
    also have "\<dots> = Some (f n)" by simp
    finally show ?thesis using 0 by (simp del: fun_upd_apply)
  next
    case (Suc j)
    with Cons.prems have "distinct row" "j < length row" by simp_all
    from Cons.IH [OF this, of "Suc n" "m([a] \<mapsto> f n)"] Suc show ?thesis
      by (simp del: fun_upd_apply)
  qed
qed

lemma setRows_other:
  "k \<notin> (\<lambda>ch. [ch]) ` set (concat rws) \<Longrightarrow>
   fold (setRow wd len) (enumerate n rws) m k = m k"
proof (induction rws arbitrary: n m)
  case Nil
  then show ?case by simp
next
  case (Cons row rws)
  from Cons.prems have a: "k \<notin> (\<lambda>ch. [ch]) ` set row"
    and b: "k \<notin> (\<lambda>ch. [ch]) ` set (concat rws)" by auto
  have "fold (setRow wd len) (enumerate (Suc n) rws) (setRow wd len (n, row) m) k
      = setRow wd len (n, row) m k"
    by (rule Cons.IH [OF b])
  also have "\<dots> = m k" using a by (simp add: setRow_def setKeys_other del: fun_upd_apply)
  finally show ?case by (simp del: fun_upd_apply)
qed

lemma setRows_nth:
  "distinct (concat rws) \<Longrightarrow> r < length rws \<Longrightarrow> c < length (rws ! r) \<Longrightarrow>
   fold (setRow wd len) (enumerate n rws) m [rws ! r ! c] = Some (keyVec wd len (n + r) c)"
proof (induction rws arbitrary: n m r)
  case Nil
  then show ?case by simp
next
  case (Cons row rws)
  from Cons.prems(1) have d: "distinct row" "distinct (concat rws)"
    and disj: "set row \<inter> set (concat rws) = {}" by simp_all
  show ?case
  proof (cases r)
    case 0
    with Cons.prems(3) have c: "c < length row" by simp
    then have "row ! c \<in> set row" by simp
    with disj have "[row ! c] \<notin> (\<lambda>ch. [ch]) ` set (concat rws)" by auto
    then have "fold (setRow wd len) (enumerate (Suc n) rws) (setRow wd len (n, row) m) [row ! c]
        = setRow wd len (n, row) m [row ! c]"
      by (rule setRows_other)
    also have "\<dots> = Some (keyVec wd len n c)"
      using setKeys_nth [OF d(1) c, of "keyVec wd len n" 0 m] by (simp add: setRow_def del: fun_upd_apply)
    finally show ?thesis using 0 by (simp del: fun_upd_apply)
  next
    case (Suc r')
    with Cons.prems have "r' < length rws" "c < length (rws ! r')" by simp_all
    from Cons.IH [OF d(2) this, of "Suc n"] Suc show ?thesis by (simp del: fun_upd_apply)
  qed
qed

lemma fold_max_Max: "xs \<noteq> [] \<Longrightarrow> fold max xs (0::nat) = Max (set xs)"
proof -
  assume "xs \<noteq> []"
  have "fold max xs (0::nat) = Max (set (0 # xs))" by (rule Max.set_eq_fold [symmetric])
  also have "\<dots> = Max (set xs)" using \<open>xs \<noteq> []\<close> by simp
  finally show ?thesis .
qed

lemma makeKeyMap_ab_cd:
  "makeKeyMap [''ab'', ''cd''] ''a'' = Some \<lparr>vx = -1, vy = -1\<rparr>"
  "makeKeyMap [''ab'', ''cd''] ''b'' = Some \<lparr>vx = 1, vy = -1\<rparr>"
  "makeKeyMap [''ab'', ''cd''] ''c'' = Some \<lparr>vx = -1, vy = 1\<rparr>"
  "makeKeyMap [''ab'', ''cd''] ''d'' = Some \<lparr>vx = 1, vy = 1\<rparr>"
  by (simp_all add: makeKeyMap_def setRow_def keyVec_def)

text \<open>
  C7. In a layout of at least two rows whose widest row has at least two characters and
  in which no character occurs twice, the character at row \<open>r\<close> and column \<open>c\<close> is mapped
  to \<open>x = (c / (widest - 1)) * 2 - 1\<close> and \<open>y = (r / (R - 1)) * 2 - 1\<close>, where \<open>widest\<close> is the
  greatest row length and \<open>R\<close> the number of rows. For the layout \<^verbatim>\<open>["ab", "cd"]\<close> the four
  vectors are (-1, -1), (1, -1), (-1, 1) and (1, 1). (With one row, or rows of one
  character, the source divides 0 by 0; a character that occurs twice keeps the vector of
  its last place.)
\<close>

theorem makeKeyMap_vectors:
  assumes "distinct (concat layout)" and "r < length layout" and "c < length (layout ! r)"
    and "1 < length layout" and "1 < Max (length ` set layout)"
  shows "makeKeyMap layout [layout ! r ! c] =
       Some \<lparr>vx = (real c / (real (Max (length ` set layout)) - 1)) * 2 - 1,
             vy = (real r / (real (length layout) - 1)) * 2 - 1\<rparr> \<and>
     makeKeyMap [''ab'', ''cd''] ''a'' = Some \<lparr>vx = -1, vy = -1\<rparr> \<and>
     makeKeyMap [''ab'', ''cd''] ''b'' = Some \<lparr>vx = 1, vy = -1\<rparr> \<and>
     makeKeyMap [''ab'', ''cd''] ''c'' = Some \<lparr>vx = -1, vy = 1\<rparr> \<and>
     makeKeyMap [''ab'', ''cd''] ''d'' = Some \<lparr>vx = 1, vy = 1\<rparr>"
proof -
  have ne: "map length layout \<noteq> []" using assms(2) by auto
  have w: "fold max (map length layout) 0 = Max (length ` set layout)"
    using fold_max_Max [OF ne] by simp
  have "makeKeyMap layout [layout ! r ! c] =
      Some (keyVec (Max (length ` set layout)) (length layout) (0 + r) c)"
    unfolding makeKeyMap_def Let_def w by (rule setRows_nth [OF assms(1-3)])
  then show ?thesis by (simp add: keyVec_def makeKeyMap_ab_cd)
qed

theorem makeKeyMap_vectors_witness:
  "distinct (concat rows) \<and> 1 < length rows \<and> 1 < Max (length ` set rows) \<and>
   makeKeyMap rows [rows ! 1 ! 4] = Some \<lparr>vx = - (1 / 9), vy = 0\<rparr> \<and>
   rows ! 1 ! 4 = CHR ''g''"
proof -
  have h: "distinct (concat rows)" "1 < length rows" "4 < length (rows ! 1)"
    "1 < length rows" "1 < Max (length ` set rows)"
    by (simp_all add: rows_def)
  have m: "Max (length ` set rows) = 10" by (simp add: rows_def)
  from makeKeyMap_vectors [OF h] h show ?thesis by (simp add: m) (simp add: rows_def)
qed

section \<open>The direction of the held keys\<close>

lemma getKeyDirection_first:
  "i < length ks \<Longrightarrow> ks ! i \<noteq> ''h'' \<Longrightarrow> dirs (ks ! i) = Some d \<Longrightarrow>
   (\<forall>j<i. ks ! j = ''h'' \<or> dirs (ks ! j) = None) \<Longrightarrow> getKeyDirection dirs ks = d"
proof (induction ks arbitrary: i)
  case Nil
  then show ?case by simp
next
  case (Cons k ks)
  show ?case
  proof (cases i)
    case 0
    with Cons.prems show ?thesis by simp
  next
    case (Suc i')
    with Cons.prems have skip: "k = ''h'' \<or> dirs k = None" by auto
    have "\<forall>j<i'. ks ! j = ''h'' \<or> dirs (ks ! j) = None"
      using Cons.prems(4) Suc by auto
    with Cons.IH [of i'] Cons.prems(1-3) Suc have "getKeyDirection dirs ks = d" by simp
    with skip show ?thesis by auto
  qed
qed

lemma getKeyDirection_none:
  "(\<forall>k\<in>set ks. k = ''h'' \<or> dirs k = None) \<Longrightarrow> getKeyDirection dirs ks = \<lparr>vx = 0, vy = 0\<rparr>"
  by (induction ks) auto

text \<open>
  C8. For every key map and every collection of held keys, in iteration order: if the key
  at place \<open>i\<close> is mapped and is not \<^verbatim>\<open>"h"\<close>, and every key before it is \<^verbatim>\<open>"h"\<close> or is not
  mapped, then \<^verbatim>\<open>getKeyDirection\<close> returns the vector of the key at place \<open>i\<close>; and if every
  held key is \<^verbatim>\<open>"h"\<close> or is not mapped, it returns the zero vector.
\<close>

theorem getKeyDirection_first_eligible:
  "(\<forall>i d. i < length ks \<and> ks ! i \<noteq> ''h'' \<and> dirs (ks ! i) = Some d \<and>
        (\<forall>j<i. ks ! j = ''h'' \<or> dirs (ks ! j) = None) \<longrightarrow> getKeyDirection dirs ks = d) \<and>
   ((\<forall>k\<in>set ks. k = ''h'' \<or> dirs k = None) \<longrightarrow> getKeyDirection dirs ks = \<lparr>vx = 0, vy = 0\<rparr>)"
  using getKeyDirection_first [of _ ks dirs] getKeyDirection_none [of ks dirs] by blast

lemma directions_sample:
  "directions ''g'' = Some \<lparr>vx = - (1 / 9), vy = 0\<rparr>" "directions ''1'' = None"
  by (simp_all add: directions_def makeKeyMap_def rows_def setRow_def keyVec_def)

theorem getKeyDirection_first_eligible_witness:
  "getKeyDirection directions [''h'', ''1'', ''g'', ''q''] = \<lparr>vx = - (1 / 9), vy = 0\<rparr> \<and>
   getKeyDirection directions [''h'', ''1''] = \<lparr>vx = 0, vy = 0\<rparr>"
proof -
  let ?ks = "[''h'', ''1'', ''g'', ''q'']"
  have skip: "\<forall>j<2. ?ks ! j = ''h'' \<or> directions (?ks ! j) = None"
    by (simp add: less_Suc_eq numeral_2_eq_2 directions_sample)
  have "(2::nat) < length ?ks \<and> ?ks ! 2 \<noteq> ''h'' \<and>
      directions (?ks ! 2) = Some \<lparr>vx = - (1 / 9), vy = 0\<rparr>"
    by (simp add: directions_sample)
  with skip getKeyDirection_first_eligible [of ?ks directions]
  have a: "getKeyDirection directions ?ks = \<lparr>vx = - (1 / 9), vy = 0\<rparr>" by blast
  have "\<forall>k\<in>set [''h'', ''1'']. k = ''h'' \<or> directions k = None"
    by (simp add: directions_sample)
  with getKeyDirection_first_eligible [of "[''h'', ''1'']" directions]
  have "getKeyDirection directions [''h'', ''1''] = \<lparr>vx = 0, vy = 0\<rparr>" by blast
  with a show ?thesis by simp
qed

section \<open>A frame with a time step of 0 or less\<close>



















end
